theory Spec2Isabelle
  imports Main
begin

section \<open>Wordie: the guess scorer of Frontend/wordie/script.js\<close>

text \<open>
  The script keeps one global object \<open>gameState\<close>; \<open>processGuess\<close> reads its field
  \<open>secretWord\<close> and compares it with the guess, position by position, in two passes over
  the indices 0..4.

  JavaScript strings are sequences of code units; they are modelled by \<open>string\<close>, and
  \<open>toUpperCase\<close> is modelled on the ASCII range, where it maps a..z to A..Z and leaves every
  other code unit alone. The words of the game are ASCII letters (\<open>isValidInput\<close> admits
  nothing else), so this is the range the script works on. The calls of \<open>console.log\<close>
  write to the console only and are left out.
\<close>

subsection \<open>Values\<close>

text \<open>The three strings \<open>'correct'\<close>, \<open>'present'\<close> and \<open>'absent'\<close> stored in \<open>result\<close>.\<close>

datatype classification = Correct | Present | Absent

text \<open>
  A JavaScript number as the counters use it: an integer, or \<open>NaN\<close> (what decrementing
  \<open>undefined\<close> stores). A counter never exceeds the length of the secret, so the integers are
  exact.
\<close>

datatype jsnum = Num int | NaN

text \<open>
  The object \<open>secretLetterCount\<close>. A property key is a string of one code unit
  (\<open>Some c\<close>) or, when the array element used as key is \<open>undefined\<close>, the key
  \<open>"undefined"\<close> (\<open>None\<close>). A property that was never written reads as \<open>undefined\<close>
  (\<open>None\<close>): the object starts as \<open>{}\<close>, and no property it inherits has a name of one
  code unit or the name \<open>"undefined"\<close>.
\<close>

type_synonym letterCount = "char option \<Rightarrow> jsnum option"

text \<open>
  The array \<open>result\<close>: it is written by index, so it may have holes, which read as
  \<open>undefined\<close> (\<open>None\<close>).
\<close>

type_synonym resultArray = "classification option list"

record gameState =
  secretWord :: string
  guesses :: "(string \<times> resultArray) list"
  currentRow :: nat
  maxGuesses :: nat
  gameOver :: bool

subsection \<open>JavaScript primitives\<close>

definition toUpperCase_char :: "char \<Rightarrow> char" where
  "toUpperCase_char c =
     (let n = (of_char c :: nat) in if 97 \<le> n \<and> n \<le> 122 then char_of (n - 32) else c)"

definition toUpperCase :: "string \<Rightarrow> string" where
  "toUpperCase s = map toUpperCase_char s"

text \<open>
  The strings on which this \<open>toUpperCase\<close> is the one of JavaScript: every code unit is
  below 128. Statements about guesses and fetched words that need not be five letters are
  made for such strings.
\<close>

definition isAscii :: "string \<Rightarrow> bool" where
  "isAscii s = list_all (\<lambda>c. (of_char c :: nat) < 128) s"

text \<open>\<open>xs[i]\<close> on an array: \<open>undefined\<close> beyond the end.\<close>

definition js_index :: "'a list \<Rightarrow> nat \<Rightarrow> 'a option" where
  "js_index xs i = (if i < length xs then Some (xs ! i) else None)"

text \<open>\<open>result[i]\<close>: a hole and an index beyond the end both read as \<open>undefined\<close>.\<close>

definition array_get :: "resultArray \<Rightarrow> nat \<Rightarrow> classification option" where
  "array_get xs i = (if i < length xs then xs ! i else None)"

text \<open>\<open>result[i] = v\<close>: writing beyond the end extends the array, leaving holes.\<close>

definition array_set :: "resultArray \<Rightarrow> nat \<Rightarrow> classification \<Rightarrow> resultArray" where
  "array_set xs i v =
     (if i < length xs then xs[i := Some v]
      else xs @ replicate (i - length xs) None @ [Some v])"

text \<open>\<open>x || 0\<close>: \<open>undefined\<close>, \<open>NaN\<close> and \<open>0\<close> are falsy.\<close>

fun js_or_zero :: "jsnum option \<Rightarrow> jsnum" where
  "js_or_zero None = Num 0"
| "js_or_zero (Some NaN) = Num 0"
| "js_or_zero (Some (Num n)) = (if n = 0 then Num 0 else Num n)"

fun js_plus_one :: "jsnum \<Rightarrow> jsnum" where
  "js_plus_one (Num n) = Num (n + 1)"
| "js_plus_one NaN = NaN"

text \<open>The numeric value of a property read: \<open>undefined\<close> converts to \<open>NaN\<close>.\<close>

fun js_to_number :: "jsnum option \<Rightarrow> jsnum" where
  "js_to_number None = NaN"
| "js_to_number (Some v) = v"

fun js_minus_one :: "jsnum \<Rightarrow> jsnum" where
  "js_minus_one (Num n) = Num (n - 1)"
| "js_minus_one NaN = NaN"

text \<open>\<open>x > 0\<close>: false for \<open>undefined\<close> and for \<open>NaN\<close>.\<close>

fun js_gt_zero :: "jsnum option \<Rightarrow> bool" where
  "js_gt_zero None = False"
| "js_gt_zero (Some NaN) = False"
| "js_gt_zero (Some (Num n)) = (0 < n)"

text \<open>\<open>obj[k]--\<close>\<close>

definition decrement :: "letterCount \<Rightarrow> char option \<Rightarrow> letterCount" where
  "decrement m k = m(k \<mapsto> js_minus_one (js_to_number (m k)))"

subsection \<open>Input validation and the secret word\<close>

definition isLetter :: "char \<Rightarrow> bool" where
  "isLetter c =
     (let n = (of_char c :: nat) in (65 \<le> n \<and> n \<le> 90) \<or> (97 \<le> n \<and> n \<le> 122))"

text \<open>\<open>isValidInput\<close>: exactly five code units, all matching \<open>/^[A-Za-z]+$/\<close>.\<close>

definition isValidInput :: "string \<Rightarrow> bool" where
  "isValidInput guess =
     (if length guess \<noteq> 5 then False
      else if \<not> (guess \<noteq> [] \<and> list_all isLetter guess) then False
      else True)"

text \<open>
  \<open>fetchSecretWord\<close>, with the word of the server's answer as argument: the only
  assignment of a word to \<open>gameState.secretWord\<close>.
\<close>

definition fetchSecretWord :: "string \<Rightarrow> gameState \<Rightarrow> gameState" where
  "fetchSecretWord word st = st\<lparr>secretWord := toUpperCase word\<rparr>"

subsection \<open>processGuess and checkWinCondition\<close>

text \<open>The body of the \<open>forEach\<close> that fills \<open>secretLetterCount\<close>.\<close>

definition count_letter :: "char \<Rightarrow> letterCount \<Rightarrow> letterCount" where
  "count_letter letter m = m(Some letter \<mapsto> js_plus_one (js_or_zero (m (Some letter))))"

text \<open>The body of the first loop, at index \<open>i\<close>.\<close>

definition first_pass_step ::
  "string \<Rightarrow> string \<Rightarrow> nat \<Rightarrow> resultArray \<times> letterCount \<Rightarrow> resultArray \<times> letterCount" where
  "first_pass_step guessArray secretArray i = (\<lambda>(result, secretLetterCount).
     if js_index guessArray i = js_index secretArray i
     then (array_set result i Correct, decrement secretLetterCount (js_index guessArray i))
     else (result, secretLetterCount))"

text \<open>The body of the second loop, at index \<open>i\<close>.\<close>

definition second_pass_step ::
  "string \<Rightarrow> nat \<Rightarrow> resultArray \<times> letterCount \<Rightarrow> resultArray \<times> letterCount" where
  "second_pass_step guessArray i = (\<lambda>(result, secretLetterCount).
     if array_get result i = Some Correct then (result, secretLetterCount)
     else if js_gt_zero (secretLetterCount (js_index guessArray i))
     then (array_set result i Present, decrement secretLetterCount (js_index guessArray i))
     else (array_set result i Absent, secretLetterCount))"

text \<open>
  \<open>processGuess\<close> returns its array together with the game state it leaves behind. The
  array and the counters are local to the call.
\<close>

definition processGuess :: "string \<Rightarrow> gameState \<Rightarrow> resultArray \<times> gameState" where
  "processGuess guess st =
     (let secretArray = secretWord st;
          guessArray = toUpperCase guess;
          secretLetterCount = fold count_letter secretArray Map.empty;
          pass1 = fold (first_pass_step guessArray secretArray) [0..<5] ([], secretLetterCount);
          pass2 = fold (second_pass_step guessArray) [0..<5] pass1
      in (fst pass2, st))"

definition checkWinCondition :: "string \<Rightarrow> gameState \<Rightarrow> bool \<times> gameState" where
  "checkWinCondition guess st = (toUpperCase guess = secretWord st, st)"

text \<open>The state the script starts from and resets to.\<close>

definition initialState :: gameState where
  "initialState = \<lparr>secretWord = [], guesses = [], currentRow = 0, maxGuesses = 6, gameOver = False\<rparr>"

subsection \<open>Counting positions\<close>

text \<open>
  Two counts over the positions below \<open>n\<close>, used to state what the passes compute:
  the positions where guess and secret both hold the key \<open>k\<close>, and the positions where the
  guess holds \<open>k\<close> and the secret does not.
\<close>

definition exact_matches :: "string \<Rightarrow> string \<Rightarrow> char option \<Rightarrow> nat \<Rightarrow> nat" where
  "exact_matches guessArray secretArray k n =
     length (filter (\<lambda>j. js_index guessArray j = k \<and> js_index secretArray j = k) [0..<n])"

definition misplaced :: "string \<Rightarrow> string \<Rightarrow> char option \<Rightarrow> nat \<Rightarrow> nat" where
  "misplaced guessArray secretArray k n =
     length (filter (\<lambda>j. js_index guessArray j = k \<and> js_index secretArray j \<noteq> k) [0..<n])"

text \<open>The state of \<open>result\<close> and \<open>secretLetterCount\<close> after the first loop.\<close>

definition after_first_pass :: "string \<Rightarrow> string \<Rightarrow> resultArray \<times> letterCount" where
  "after_first_pass guessArray secretArray =
     fold (first_pass_step guessArray secretArray) [0..<5]
       ([], fold count_letter secretArray Map.empty)"

text \<open>
  The occurrences of a key in the secret that the first loop has not counted off, and the
  classification of position \<open>i\<close> written in terms of the two words alone.
\<close>

definition unmatched :: "string \<Rightarrow> string \<Rightarrow> char option \<Rightarrow> nat" where
  "unmatched guessArray secretArray k =
     (case k of None \<Rightarrow> 0
      | Some c \<Rightarrow> count_list secretArray c - exact_matches guessArray secretArray k 5)"

definition classify :: "string \<Rightarrow> string \<Rightarrow> nat \<Rightarrow> classification" where
  "classify guessArray secretArray i =
     (if js_index guessArray i = js_index secretArray i then Correct
      else if misplaced guessArray secretArray (js_index guessArray i) i
                < unmatched guessArray secretArray (js_index guessArray i) then Present
      else Absent)"

section \<open>Properties of the two passes\<close>

lemma array_get_set:
  "array_get (array_set xs i v) j = (if j = i then Some v else array_get xs j)"
  by (auto simp: array_get_def array_set_def nth_append nth_list_update)

lemma length_array_set: "length (array_set xs i v) = max (length xs) (Suc i)"
  by (auto simp: array_set_def)

lemma initial_count:
  "fold count_letter s Map.empty k =
     (case k of None \<Rightarrow> None
      | Some c \<Rightarrow> if c \<in> set s then Some (Num (int (count_list s c))) else None)"
proof (induction s rule: rev_induct)
  case Nil
  then show ?case by (simp split: option.splits)
next
  case (snoc x xs)
  then show ?case
    by (cases k) (auto simp: count_letter_def)
qed

lemma toUpperCase_length: "length (toUpperCase s) = length s"
  by (simp add: toUpperCase_def)

lemma toUpperCase_char_lower:
  "97 \<le> (of_char c :: nat) \<and> (of_char c :: nat) \<le> 122 \<Longrightarrow>
     toUpperCase_char c = char_of (of_char c - 32 :: nat)"
  unfolding toUpperCase_char_def Let_def by (rule if_P)

lemma toUpperCase_char_other:
  "\<not> (97 \<le> (of_char c :: nat) \<and> (of_char c :: nat) \<le> 122) \<Longrightarrow> toUpperCase_char c = c"
  unfolding toUpperCase_char_def Let_def by (rule if_not_P)

lemma toUpperCase_char_idem: "toUpperCase_char (toUpperCase_char c) = toUpperCase_char c"
proof (cases "97 \<le> (of_char c :: nat) \<and> (of_char c :: nat) \<le> 122")
  case True
  then have "(of_char c - 32 :: nat) < 256" and up: "(of_char c - 32 :: nat) < 97"
    by arith+
  then have "(of_char c - 32 :: nat) mod 256 = of_char c - 32"
    by simp
  then have "(of_char (char_of (of_char c - 32 :: nat)) :: nat) = of_char c - 32"
    by simp
  with up have "\<not> (97 \<le> (of_char (char_of (of_char c - 32 :: nat)) :: nat)
      \<and> (of_char (char_of (of_char c - 32 :: nat)) :: nat) \<le> 122)"
    by arith
  then have "toUpperCase_char (char_of (of_char c - 32 :: nat)) = char_of (of_char c - 32 :: nat)"
    by (rule toUpperCase_char_other)
  then show ?thesis
    by (simp only: toUpperCase_char_lower[OF True])
next
  case False
  then have "toUpperCase_char c = c"
    by (rule toUpperCase_char_other)
  then show ?thesis by simp
qed

lemma toUpperCase_idem: "toUpperCase (toUpperCase s) = toUpperCase s"
  by (simp add: toUpperCase_def toUpperCase_char_idem)

lemma first_pass_step_fst:
  "fst (first_pass_step g s i st) =
     (if js_index g i = js_index s i then array_set (fst st) i Correct else fst st)"
  by (simp add: first_pass_step_def case_prod_beta)

lemma first_pass_step_snd:
  "snd (first_pass_step g s i st) =
     (if js_index g i = js_index s i then decrement (snd st) (js_index g i) else snd st)"
  by (simp add: first_pass_step_def case_prod_beta)

lemma second_pass_step_fst:
  "fst (second_pass_step g i st) =
     (if array_get (fst st) i = Some Correct then fst st
      else if js_gt_zero (snd st (js_index g i)) then array_set (fst st) i Present
      else array_set (fst st) i Absent)"
  by (simp add: second_pass_step_def case_prod_beta)

lemma second_pass_step_snd:
  "snd (second_pass_step g i st) =
     (if array_get (fst st) i = Some Correct then snd st
      else if js_gt_zero (snd st (js_index g i)) then decrement (snd st) (js_index g i)
      else snd st)"
  by (simp add: second_pass_step_def case_prod_beta)

lemma exact_matches_Suc:
  "exact_matches g s k (Suc n) =
     (if js_index g n = k \<and> js_index s n = k then Suc (exact_matches g s k n)
      else exact_matches g s k n)"
  by (simp add: exact_matches_def)

lemma misplaced_Suc:
  "misplaced g s k (Suc n) =
     (if js_index g n = k \<and> js_index s n \<noteq> k then Suc (misplaced g s k n)
      else misplaced g s k n)"
  by (simp add: misplaced_def)

lemma count_list_index:
  "count_list s c = length (filter (\<lambda>j. js_index s j = Some c) [0..<length s])"
proof -
  have "count_list s c = length (filter ((=) c) (map (nth s) [0..<length s]))"
    by (simp add: count_list_eq_length_filter map_nth)
  also have "\<dots> = length (filter (\<lambda>j. c = s ! j) [0..<length s])"
    by (simp only: filter_map length_map comp_def)
  also have "filter (\<lambda>j. c = s ! j) [0..<length s] = filter (\<lambda>j. js_index s j = Some c) [0..<length s]"
    by (rule filter_cong) (auto simp: js_index_def)
  finally show ?thesis .
qed


lemma filter_index_le_count:
  "length (filter (\<lambda>j. js_index s j = Some c \<and> P j) [0..<n]) \<le> count_list s c"
proof -
  have "length (filter (\<lambda>j. js_index s j = Some c \<and> P j) [0..<n])
          \<le> length (filter (\<lambda>j. js_index s j = Some c) [0..<n])"
    by (induction n) auto
  also have "\<dots> \<le> length (filter (\<lambda>j. js_index s j = Some c) [0..<length s])"
  proof (cases "n \<le> length s")
    case True
    then have "[0..<length s] = [0..<n] @ [n..<length s]"
      using upt_add_eq_append[of 0 n "length s - n"] by simp
    then show ?thesis by simp
  next
    case False
    then have "[0..<n] = [0..<length s] @ [length s..<n]"
      using upt_add_eq_append[of 0 "length s" "n - length s"] by simp
    moreover have "filter (\<lambda>j. js_index s j = Some c) [length s..<n] = []"
      by (auto simp: filter_empty_conv js_index_def)
    ultimately show ?thesis by simp
  qed
  finally show ?thesis by (simp add: count_list_index)
qed

lemma exact_matches_le: "exact_matches g s (Some c) n \<le> count_list s c"
  unfolding exact_matches_def
  using filter_index_le_count[of s c "\<lambda>j. js_index g j = Some c" n]
  by (simp add: conj_commute)

lemma js_index_Some_in_set: "js_index s i = Some c \<Longrightarrow> c \<in> set s"
  by (auto simp: js_index_def split: if_splits)

lemma first_pass_result:
  "array_get (fst (fold (first_pass_step g s) [0..<n] ([], c0))) i =
     (if i < n \<and> js_index g i = js_index s i then Some Correct else None)"
proof (induction n)
  case 0
  then show ?case by (simp add: array_get_def)
next
  case (Suc n)
  then show ?case
    by (auto simp: first_pass_step_fst array_get_set less_Suc_eq)
qed

lemma first_pass_length:
  "length (fst (fold (first_pass_step g s) [0..<n] ([], c0))) \<le> n"
proof (induction n)
  case 0
  then show ?case by simp
next
  case (Suc n)
  then show ?case
    by (auto simp: first_pass_step_fst length_array_set)
qed

lemma first_pass_count:
  "snd (fold (first_pass_step g s) [0..<n] ([], fold count_letter s Map.empty)) (Some c) =
     (if c \<in> set s
      then Some (Num (int (count_list s c) - int (exact_matches g s (Some c) n)))
      else None)"
proof (induction n)
  case 0
  then show ?case by (simp add: initial_count exact_matches_def)
next
  case (Suc n)
  show ?case
  proof (cases "js_index g n = js_index s n")
    case False
    then show ?thesis
      using Suc by (auto simp: first_pass_step_snd exact_matches_Suc)
  next
    case True
    show ?thesis
    proof (cases "js_index g n = Some c")
      case True
      with \<open>js_index g n = js_index s n\<close> have "js_index s n = Some c"
        by simp
      then have "c \<in> set s"
        by (rule js_index_Some_in_set)
      with True \<open>js_index g n = js_index s n\<close> Suc show ?thesis
        by (simp add: first_pass_step_snd exact_matches_Suc decrement_def)
    next
      case False
      with \<open>js_index g n = js_index s n\<close> Suc show ?thesis
        by (auto simp: first_pass_step_snd exact_matches_Suc decrement_def)
    qed
  qed
qed

lemma second_pass_correct:
  "n \<le> 5 \<Longrightarrow>
   array_get (fst (fold (second_pass_step g) [0..<n] (after_first_pass g s))) i = Some Correct
     \<longleftrightarrow> i < 5 \<and> js_index g i = js_index s i"
proof (induction n)
  case 0
  then show ?case by (simp add: after_first_pass_def first_pass_result)
next
  case (Suc n)
  then show ?case
    by (auto simp: second_pass_step_fst array_get_set)
qed

lemma second_pass_count_undefined:
  "snd (fold (second_pass_step g) [0..<n] (after_first_pass g s)) None \<in> {None, Some NaN}"
proof (induction n)
  case 0
  have "snd (fold (first_pass_step g s) [0..<m] ([], fold count_letter s Map.empty)) None
          \<in> {None, Some NaN}" for m
    by (induction m) (auto simp: initial_count first_pass_step_snd decrement_def)
  then show ?case by (simp add: after_first_pass_def)
next
  case (Suc n)
  then show ?case
    by (auto simp: second_pass_step_snd decrement_def)
qed

lemma second_pass_count:
  "n \<le> 5 \<Longrightarrow>
   snd (fold (second_pass_step g) [0..<n] (after_first_pass g s)) (Some c) =
     (if c \<in> set s
      then Some (Num (max 0 (int (count_list s c) - int (exact_matches g s (Some c) 5)
                              - int (misplaced g s (Some c) n))))
      else None)"
proof (induction n)
  case 0
  have "exact_matches g s (Some c) 5 \<le> count_list s c"
    by (rule exact_matches_le)
  then show ?case
    by (simp add: after_first_pass_def first_pass_count misplaced_def)
next
  case (Suc n)
  let ?st = "fold (second_pass_step g) [0..<n] (after_first_pass g s)"
  from Suc.prems have n: "n < 5" "n \<le> 5" by simp_all
  have IH: "snd ?st (Some c) =
     (if c \<in> set s
      then Some (Num (max 0 (int (count_list s c) - int (exact_matches g s (Some c) 5)
                              - int (misplaced g s (Some c) n))))
      else None)"
    by (rule Suc.IH[OF n(2)])
  have corr: "array_get (fst ?st) n = Some Correct \<longleftrightarrow> js_index g n = js_index s n"
    using second_pass_correct[OF n(2), of g s n] n(1) by simp
  have undef: "snd ?st None \<in> {None, Some NaN}"
    by (rule second_pass_count_undefined)
  show ?case
  proof (cases "js_index g n = js_index s n")
    case True
    then show ?thesis
      using IH corr by (auto simp: second_pass_step_snd misplaced_Suc)
  next
    case False
    show ?thesis
    proof (cases "js_index g n = Some c")
      case True
      with False have ne: "js_index s n \<noteq> Some c" by simp
      show ?thesis
        using IH corr False True ne
        by (auto simp: second_pass_step_snd misplaced_Suc decrement_def)
    next
      case other: False
      show ?thesis
        using IH corr False other
        by (auto simp: second_pass_step_snd misplaced_Suc decrement_def)
    qed
  qed
qed


lemma second_pass_gt_zero:
  assumes "n \<le> 5"
  shows "js_gt_zero (snd (fold (second_pass_step g) [0..<n] (after_first_pass g s)) k)
           \<longleftrightarrow> misplaced g s k n < unmatched g s k"
proof (cases k)
  case None
  have "snd (fold (second_pass_step g) [0..<n] (after_first_pass g s)) None \<in> {None, Some NaN}"
    by (rule second_pass_count_undefined)
  with None show ?thesis
    by (auto simp: unmatched_def)
next
  case (Some c)
  have "exact_matches g s (Some c) 5 \<le> count_list s c"
    by (rule exact_matches_le)
  then show ?thesis
    unfolding Some second_pass_count[OF assms]
    by (auto simp: unmatched_def count_list_0_iff)
qed

lemma second_pass_result:
  "n \<le> 5 \<Longrightarrow>
   array_get (fst (fold (second_pass_step g) [0..<n] (after_first_pass g s))) i =
     (if i < n \<or> (i < 5 \<and> js_index g i = js_index s i) then Some (classify g s i) else None)"
proof (induction n)
  case 0
  then show ?case
    by (simp add: after_first_pass_def first_pass_result classify_def)
next
  case (Suc n)
  let ?st = "fold (second_pass_step g) [0..<n] (after_first_pass g s)"
  from Suc.prems have n: "n < 5" "n \<le> 5" by simp_all
  have IH: "array_get (fst ?st) i =
     (if i < n \<or> (i < 5 \<and> js_index g i = js_index s i) then Some (classify g s i) else None)"
    by (rule Suc.IH[OF n(2)])
  have corr: "array_get (fst ?st) n = Some Correct \<longleftrightarrow> js_index g n = js_index s n"
    using second_pass_correct[OF n(2), of g s n] n(1) by simp
  have gt: "js_gt_zero (snd ?st (js_index g n))
              \<longleftrightarrow> misplaced g s (js_index g n) n < unmatched g s (js_index g n)"
    by (rule second_pass_gt_zero[OF n(2)])
  show ?case
  proof (cases "i = n")
    case True
    then show ?thesis
      using corr gt n(1) by (simp add: second_pass_step_fst array_get_set classify_def)
  next
    case False
    then show ?thesis
      using IH corr by (auto simp: second_pass_step_fst array_get_set less_Suc_eq)
  qed
qed

lemma second_pass_length:
  "n \<le> 5 \<Longrightarrow>
   n \<le> length (fst (fold (second_pass_step g) [0..<n] (after_first_pass g s))) \<and>
   length (fst (fold (second_pass_step g) [0..<n] (after_first_pass g s))) \<le> 5"
proof (induction n)
  case 0
  then show ?case
    by (simp add: after_first_pass_def first_pass_length)
next
  case (Suc n)
  then show ?case
    by (auto simp: second_pass_step_fst length_array_set array_get_def split: if_splits)
qed

lemma processGuess_unfold:
  "fst (processGuess guess st) =
     fst (fold (second_pass_step (toUpperCase guess)) [0..<5]
            (after_first_pass (toUpperCase guess) (secretWord st)))"
  by (simp add: processGuess_def after_first_pass_def Let_def)

lemma processGuess_length: "length (fst (processGuess guess st)) = 5"
  using second_pass_length[of 5 "toUpperCase guess" "secretWord st"]
  by (simp add: processGuess_unfold)

lemma processGuess_nth:
  assumes "i < 5"
  shows "fst (processGuess guess st) ! i = Some (classify (toUpperCase guess) (secretWord st) i)"
proof -
  have "array_get (fst (processGuess guess st)) i
          = Some (classify (toUpperCase guess) (secretWord st) i)"
    using second_pass_result[of 5 "toUpperCase guess" "secretWord st" i] assms
    by (simp add: processGuess_unfold)
  then show ?thesis
    using assms by (simp add: array_get_def processGuess_length)
qed

lemma processGuess_closed_form:
  "fst (processGuess guess st) =
     map (\<lambda>i. Some (classify (toUpperCase guess) (secretWord st) i)) [0..<5]"
  by (rule nth_equalityI) (simp_all add: processGuess_length processGuess_nth)

lemma isValidInput_length: "isValidInput guess \<Longrightarrow> length guess = 5"
  by (simp add: isValidInput_def split: if_splits)

lemma classify_Correct_iff: "classify g s i = Correct \<longleftrightarrow> js_index g i = js_index s i"
  by (simp add: classify_def)

lemma marked_count:
  "length (filter (\<lambda>i. js_index g i = Some c \<and> classify g s i \<noteq> Absent) [0..<n]) =
     exact_matches g s (Some c) n + min (misplaced g s (Some c) n) (unmatched g s (Some c))"
proof (induction n)
  case 0
  then show ?case by (simp add: exact_matches_def misplaced_def)
next
  case (Suc n)
  then show ?case
    by (auto simp: exact_matches_Suc misplaced_Suc classify_def)
qed

lemma marked_le_count:
  "length (filter (\<lambda>i. js_index g i = Some c \<and> classify g s i \<noteq> Absent) [0..<5])
     \<le> count_list s c"
proof -
  have "exact_matches g s (Some c) 5 \<le> count_list s c"
    by (rule exact_matches_le)
  then show ?thesis
    unfolding marked_count by (simp add: unmatched_def)
qed

lemma misplaced_mono: "i \<le> j \<Longrightarrow> misplaced g s k i \<le> misplaced g s k j"
proof (induction j)
  case 0
  then show ?case by simp
next
  case (Suc j)
  then show ?case
    by (cases "i = Suc j") (auto simp: misplaced_Suc)
qed

lemma classify_priority:
  assumes "i \<le> j" "js_index g i = js_index g j"
    and "classify g s i \<noteq> Correct" "classify g s j = Present"
  shows "classify g s i = Present"
proof -
  from assms(4) have "misplaced g s (js_index g j) j < unmatched g s (js_index g j)"
    by (simp add: classify_def split: if_splits)
  moreover have "misplaced g s (js_index g j) i \<le> misplaced g s (js_index g j) j"
    by (rule misplaced_mono[OF assms(1)])
  ultimately have "misplaced g s (js_index g i) i < unmatched g s (js_index g i)"
    using assms(2) by simp
  with assms(3) show ?thesis
    by (simp add: classify_def split: if_splits)
qed

lemma all_correct_iff:
  "fst (processGuess guess st) = replicate 5 (Some Correct)
     \<longleftrightarrow> (\<forall>i<5. js_index (toUpperCase guess) i = js_index (secretWord st) i)"
proof -
  have "fst (processGuess guess st) = replicate 5 (Some Correct)
          \<longleftrightarrow> (\<forall>i<5. fst (processGuess guess st) ! i = Some Correct)"
    by (auto simp: list_eq_iff_nth_eq processGuess_length)
  then show ?thesis
    by (simp add: processGuess_nth classify_Correct_iff)
qed

lemma classify_nth:
  assumes "length g = 5" and "length s = 5" and "i < 5"
  shows "classify g s i =
     (if g ! i = s ! i then Correct
      else if length (filter (\<lambda>j. g ! j = g ! i \<and> s ! j \<noteq> g ! i) [0..<i])
                < count_list s (g ! i)
                  - length (filter (\<lambda>j. g ! j = g ! i \<and> s ! j = g ! i) [0..<5])
      then Present else Absent)"
proof -
  have gi: "js_index g i = Some (g ! i)" and si: "js_index s i = Some (s ! i)"
    using assms by (simp_all add: js_index_def)
  have m: "misplaced g s (Some (g ! i)) i
             = length (filter (\<lambda>j. g ! j = g ! i \<and> s ! j \<noteq> g ! i) [0..<i])"
    unfolding misplaced_def
    by (rule arg_cong[where f = length], rule filter_cong[OF refl])
       (use assms in \<open>auto simp: js_index_def\<close>)
  have e: "exact_matches g s (Some (g ! i)) 5
             = length (filter (\<lambda>j. g ! j = g ! i \<and> s ! j = g ! i) [0..<5])"
    unfolding exact_matches_def
    by (rule arg_cong[where f = length], rule filter_cong[OF refl])
       (use assms in \<open>auto simp: js_index_def\<close>)
  show ?thesis
    by (simp add: classify_def gi si m e unmatched_def)
qed

lemma processGuess_five:
  "\<exists>a b c d e. fst (processGuess guess st) = [Some a, Some b, Some c, Some d, Some e]"
proof -
  have "[0..<5] = [0, 1, 2, 3, 4]"
    by code_simp
  then show ?thesis
    unfolding processGuess_closed_form by simp
qed

lemma js_index_take: "i < n \<Longrightarrow> js_index (take n xs) i = js_index xs i"
  by (simp add: js_index_def)

lemma classify_take:
  assumes "i < 5"
  shows "classify (take 5 g) s i = classify g s i"
proof -
  have m: "misplaced (take 5 g) s k i = misplaced g s k i" for k
    unfolding misplaced_def
    by (rule arg_cong[where f = length], rule filter_cong[OF refl])
       (use assms in \<open>simp add: js_index_take\<close>)
  have e: "exact_matches (take 5 g) s k 5 = exact_matches g s k 5" for k
    unfolding exact_matches_def
    by (rule arg_cong[where f = length], rule filter_cong[OF refl])
       (simp add: js_index_take)
  have u: "unmatched (take 5 g) s k = unmatched g s k" for k
    unfolding unmatched_def e ..
  show ?thesis
    by (simp add: classify_def m u js_index_take[OF assms])
qed

section \<open>The claims\<close>

text \<open>
  C1. For a secret of five code units and a guess of five letters, and for every letter
  \<open>L\<close>: the positions that \<open>processGuess\<close> classifies as correct or present and whose
  guessed letter (as compared, that is, in upper case) is \<open>L\<close> are at most as many as the
  occurrences of \<open>L\<close> in the secret word.
\<close>

theorem letter_count_invariant:
  assumes "length (secretWord st) = 5" and "isValidInput guess"
  shows "length (filter (\<lambda>i. toUpperCase guess ! i = L
                    \<and> fst (processGuess guess st) ! i \<in> {Some Correct, Some Present}) [0..<5])
           \<le> count_list (secretWord st) L"
proof -
  let ?g = "toUpperCase guess" and ?s = "secretWord st"
  have len: "length ?g = 5"
    using assms(2) by (simp add: toUpperCase_length isValidInput_length)
  have "filter (\<lambda>i. ?g ! i = L \<and> fst (processGuess guess st) ! i \<in> {Some Correct, Some Present}) [0..<5]
          = filter (\<lambda>i. js_index ?g i = Some L \<and> classify ?g ?s i \<noteq> Absent) [0..<5]"
  proof (rule filter_cong[OF refl])
    fix i assume "i \<in> set [0..<5]"
    then have i: "i < 5" by simp
    have "classify ?g ?s i \<noteq> Absent \<longleftrightarrow> classify ?g ?s i \<in> {Correct, Present}"
      by (cases "classify ?g ?s i") simp_all
    then show "(?g ! i = L \<and> fst (processGuess guess st) ! i \<in> {Some Correct, Some Present})
             = (js_index ?g i = Some L \<and> classify ?g ?s i \<noteq> Absent)"
      using i len by (auto simp: processGuess_nth js_index_def)
  qed
  then show ?thesis
    using marked_le_count[of ?g L ?s] by simp
qed

theorem letter_count_invariant_witness:
  "length (secretWord (fetchSecretWord ''speed'' initialState)) = 5 \<and> isValidInput ''erase''
   \<and> length (filter (\<lambda>i. toUpperCase ''erase'' ! i = CHR ''E''
        \<and> fst (processGuess ''erase'' (fetchSecretWord ''speed'' initialState)) ! i
             \<in> {Some Correct, Some Present}) [0..<5])
       \<le> count_list (secretWord (fetchSecretWord ''speed'' initialState)) CHR ''E''"
proof -
  have h1: "length (secretWord (fetchSecretWord ''speed'' initialState)) = 5"
    by (simp add: fetchSecretWord_def toUpperCase_def)
  have h2: "isValidInput ''erase''"
    by code_simp
  show ?thesis
    using h1 h2 letter_count_invariant[OF h1 h2, of "CHR ''E''"] by blast
qed

text \<open>
  C2. For a secret of five code units and a guess of five letters, the array returned by
  \<open>processGuess\<close> is all correct exactly when the guess in upper case equals the secret
  word, and that equation is the test of \<open>checkWinCondition\<close>. For a secret word stored
  as the upper case of a fetched word, the equation compares both words in upper case.
\<close>

theorem all_correct_iff_win:
  assumes "length (secretWord st) = 5" and "isValidInput guess"
  shows "(fst (processGuess guess st) = replicate 5 (Some Correct)
            \<longleftrightarrow> toUpperCase guess = secretWord st)
         \<and> (fst (checkWinCondition guess st) \<longleftrightarrow> toUpperCase guess = secretWord st)
         \<and> (secretWord st = toUpperCase word \<longrightarrow>
               (fst (processGuess guess st) = replicate 5 (Some Correct)
                  \<longleftrightarrow> toUpperCase guess = toUpperCase word))"
proof -
  have len: "length (toUpperCase guess) = 5"
    using assms(2) by (simp add: toUpperCase_length isValidInput_length)
  have "(\<forall>i<5. js_index (toUpperCase guess) i = js_index (secretWord st) i)
          \<longleftrightarrow> toUpperCase guess = secretWord st"
    using len assms(1) by (auto simp: js_index_def list_eq_iff_nth_eq)
  then have "fst (processGuess guess st) = replicate 5 (Some Correct)
               \<longleftrightarrow> toUpperCase guess = secretWord st"
    by (simp add: all_correct_iff)
  then show ?thesis
    by (auto simp: checkWinCondition_def)
qed

theorem all_correct_iff_win_witness:
  "length (secretWord (fetchSecretWord ''crane'' initialState)) = 5 \<and> isValidInput ''Crane''
   \<and> fst (processGuess ''Crane'' (fetchSecretWord ''crane'' initialState)) = replicate 5 (Some Correct)
   \<and> fst (checkWinCondition ''Crane'' (fetchSecretWord ''crane'' initialState))
   \<and> secretWord (fetchSecretWord ''crane'' initialState) = toUpperCase ''crane''
   \<and> toUpperCase ''Crane'' = toUpperCase ''crane''"
proof -
  have h1: "length (secretWord (fetchSecretWord ''crane'' initialState)) = 5"
    by (simp add: fetchSecretWord_def toUpperCase_def)
  have h2: "isValidInput ''Crane''"
    by code_simp
  have eq: "toUpperCase ''Crane'' = secretWord (fetchSecretWord ''crane'' initialState)"
    by code_simp
  have w: "secretWord (fetchSecretWord ''crane'' initialState) = toUpperCase ''crane''"
    by (simp add: fetchSecretWord_def)
  show ?thesis
    using h1 h2 eq w all_correct_iff_win[OF h1 h2, of "''crane''"] by metis
qed

text \<open>
  C3. Both loops run through the positions in ascending order, so a position \<open>j\<close> that
  is not an exact match is present exactly when fewer non-matching positions before it hold
  the same letter than the secret has occurrences of that letter left after the exact
  matches, and absent otherwise. Hence of two non-correct positions with the same letter the
  right one is never present while the left one is absent. For the guess ALLOY and the secret
  LLAMA the array is present, correct, present, absent, absent.
\<close>

theorem leftmost_priority:
  assumes "length (secretWord st) = 5" and "isValidInput guess" and "j < 5"
  shows
    "fst (processGuess guess st) ! j =
       Some (if toUpperCase guess ! j = secretWord st ! j then Correct
             else if length (filter (\<lambda>i. toUpperCase guess ! i = toUpperCase guess ! j
                                       \<and> secretWord st ! i \<noteq> toUpperCase guess ! j) [0..<j])
                       < count_list (secretWord st) (toUpperCase guess ! j)
                         - length (filter (\<lambda>i. toUpperCase guess ! i = toUpperCase guess ! j
                                       \<and> secretWord st ! i = toUpperCase guess ! j) [0..<5])
             then Present else Absent)
     \<and> (\<forall>i<j. toUpperCase guess ! i = toUpperCase guess ! j
            \<and> fst (processGuess guess st) ! i \<noteq> Some Correct
            \<and> fst (processGuess guess st) ! j = Some Present
          \<longrightarrow> fst (processGuess guess st) ! i = Some Present)
     \<and> fst (processGuess ''ALLOY'' (fetchSecretWord ''LLAMA'' initialState))
          = [Some Present, Some Correct, Some Present, Some Absent, Some Absent]"
proof (intro conjI allI impI)
  let ?g = "toUpperCase guess" and ?s = "secretWord st"
  have len: "length ?g = 5"
    using assms(2) by (simp add: toUpperCase_length isValidInput_length)
  show "fst (processGuess guess st) ! j =
       Some (if ?g ! j = ?s ! j then Correct
             else if length (filter (\<lambda>i. ?g ! i = ?g ! j \<and> ?s ! i \<noteq> ?g ! j) [0..<j])
                       < count_list ?s (?g ! j)
                         - length (filter (\<lambda>i. ?g ! i = ?g ! j \<and> ?s ! i = ?g ! j) [0..<5])
             then Present else Absent)"
    unfolding processGuess_nth[OF assms(3)] classify_nth[OF len assms(1) assms(3)] ..
  show "fst (processGuess guess st) ! i = Some Present"
    if "i < j"
      and "?g ! i = ?g ! j \<and> fst (processGuess guess st) ! i \<noteq> Some Correct
           \<and> fst (processGuess guess st) ! j = Some Present" for i
  proof -
    from that(1) assms(3) have i: "i < 5" "i \<le> j" by simp_all
    have "js_index ?g i = js_index ?g j"
      using that(2) i(1) assms(3) len by (simp add: js_index_def)
    moreover have "classify ?g ?s i \<noteq> Correct" "classify ?g ?s j = Present"
      using that(2) by (simp_all add: processGuess_nth i(1) assms(3))
    ultimately have "classify ?g ?s i = Present"
      using classify_priority[OF i(2)] by blast
    then show ?thesis
      by (simp add: processGuess_nth i(1))
  qed
  show "fst (processGuess ''ALLOY'' (fetchSecretWord ''LLAMA'' initialState))
          = [Some Present, Some Correct, Some Present, Some Absent, Some Absent]"
    by code_simp
qed

theorem leftmost_priority_witness:
  "length (secretWord (fetchSecretWord ''ALLOY'' initialState)) = 5 \<and> isValidInput ''LLAMA''
   \<and> (4::nat) < 5
   \<and> toUpperCase ''LLAMA'' ! 2 = toUpperCase ''LLAMA'' ! 4
   \<and> fst (processGuess ''LLAMA'' (fetchSecretWord ''ALLOY'' initialState)) ! 2 = Some Present
   \<and> fst (processGuess ''LLAMA'' (fetchSecretWord ''ALLOY'' initialState)) ! 4 = Some Absent
   \<and> length (secretWord (fetchSecretWord ''SPEED'' initialState)) = 5 \<and> isValidInput ''ERASE''
   \<and> toUpperCase ''ERASE'' ! 0 = toUpperCase ''ERASE'' ! 4
   \<and> fst (processGuess ''ERASE'' (fetchSecretWord ''SPEED'' initialState)) ! 0 \<noteq> Some Correct
   \<and> fst (processGuess ''ERASE'' (fetchSecretWord ''SPEED'' initialState)) ! 4 = Some Present
   \<and> fst (processGuess ''ERASE'' (fetchSecretWord ''SPEED'' initialState)) ! 0 = Some Present"
proof -
  have k1: "length (secretWord (fetchSecretWord ''SPEED'' initialState)) = 5"
    by (simp add: fetchSecretWord_def toUpperCase_def)
  have k2: "isValidInput ''ERASE''"
    by code_simp
  have k3: "toUpperCase ''ERASE'' ! 0 = toUpperCase ''ERASE'' ! 4"
    by code_simp
  have k4: "fst (processGuess ''ERASE'' (fetchSecretWord ''SPEED'' initialState)) ! 0 \<noteq> Some Correct"
    by code_simp
  have k5: "fst (processGuess ''ERASE'' (fetchSecretWord ''SPEED'' initialState)) ! 4 = Some Present"
    by code_simp
  have k6: "(0::nat) < 4"
    by simp
  have h1: "length (secretWord (fetchSecretWord ''ALLOY'' initialState)) = 5"
    by (simp add: fetchSecretWord_def toUpperCase_def)
  have h2: "isValidInput ''LLAMA''"
    by code_simp
  have h3: "(4::nat) < 5"
    by simp
  have h4: "(2::nat) < 5"
    by simp
  have l: "toUpperCase ''LLAMA'' ! 2 = toUpperCase ''LLAMA'' ! 4"
    by code_simp
  have r4: "(if toUpperCase ''LLAMA'' ! 4 = secretWord (fetchSecretWord ''ALLOY'' initialState) ! 4 then Correct
             else if length (filter (\<lambda>i. toUpperCase ''LLAMA'' ! i = toUpperCase ''LLAMA'' ! 4
                                       \<and> secretWord (fetchSecretWord ''ALLOY'' initialState) ! i \<noteq> toUpperCase ''LLAMA'' ! 4) [0..<4])
                       < count_list (secretWord (fetchSecretWord ''ALLOY'' initialState)) (toUpperCase ''LLAMA'' ! 4)
                         - length (filter (\<lambda>i. toUpperCase ''LLAMA'' ! i = toUpperCase ''LLAMA'' ! 4
                                       \<and> secretWord (fetchSecretWord ''ALLOY'' initialState) ! i = toUpperCase ''LLAMA'' ! 4) [0..<5])
             then Present else Absent) = Absent"
    by code_simp
  have r2: "(if toUpperCase ''LLAMA'' ! 2 = secretWord (fetchSecretWord ''ALLOY'' initialState) ! 2 then Correct
             else if length (filter (\<lambda>i. toUpperCase ''LLAMA'' ! i = toUpperCase ''LLAMA'' ! 2
                                       \<and> secretWord (fetchSecretWord ''ALLOY'' initialState) ! i \<noteq> toUpperCase ''LLAMA'' ! 2) [0..<2])
                       < count_list (secretWord (fetchSecretWord ''ALLOY'' initialState)) (toUpperCase ''LLAMA'' ! 2)
                         - length (filter (\<lambda>i. toUpperCase ''LLAMA'' ! i = toUpperCase ''LLAMA'' ! 2
                                       \<and> secretWord (fetchSecretWord ''ALLOY'' initialState) ! i = toUpperCase ''LLAMA'' ! 2) [0..<5])
             then Present else Absent) = Present"
    by code_simp
  have "fst (processGuess ''ERASE'' (fetchSecretWord ''SPEED'' initialState)) ! 0 = Some Present"
    using k3 k4 k5 k6 leftmost_priority[OF k1 k2 h3] by blast
  then show ?thesis
    using h1 h2 h3 l k1 k2 k3 k4 k5 leftmost_priority[OF h1 h2 h3] leftmost_priority[OF h1 h2 h4]
    unfolding r4 r2 by blast
qed

text \<open>
  C4. With secret SPEED and guess ERASE the array is present, absent, absent, present,
  present: the secret has two E, none matched exactly, so both E of the guess are present.
\<close>

theorem speed_erase:
  "fst (processGuess ''ERASE'' (fetchSecretWord ''SPEED'' initialState))
     = [Some Present, Some Absent, Some Absent, Some Present, Some Present]"
  by code_simp

text \<open>
  The array that ends in absent for the second E is not what \<open>processGuess\<close> returns.
\<close>

theorem speed_erase_counterexample:
  "fst (processGuess ''ERASE'' (fetchSecretWord ''SPEED'' initialState))
     \<noteq> [Some Present, Some Absent, Some Absent, Some Present, Some Absent]"
  by code_simp

text \<open>
  C5. With secret CRANE and guess TRACE the array is absent, correct, correct, present,
  correct: the A stands at index 2 in both words, so the first loop marks it correct.
\<close>

theorem crane_trace:
  "fst (processGuess ''TRACE'' (fetchSecretWord ''CRANE'' initialState))
     = [Some Absent, Some Correct, Some Correct, Some Present, Some Correct]"
  by code_simp

text \<open>
  The array with A present is not what \<open>processGuess\<close> returns.
\<close>

theorem crane_trace_counterexample:
  "fst (processGuess ''TRACE'' (fetchSecretWord ''CRANE'' initialState))
     \<noteq> [Some Absent, Some Correct, Some Present, Some Present, Some Correct]"
  by code_simp

text \<open>
  C6. For a secret of five code units and a guess of five letters such that no letter of
  the guess (in upper case, as compared) occurs in the secret, all five positions are
  absent.
\<close>

theorem no_shared_letters_all_absent:
  assumes "length (secretWord st) = 5" and "isValidInput guess"
    and "set (toUpperCase guess) \<inter> set (secretWord st) = {}"
  shows "fst (processGuess guess st) = replicate 5 (Some Absent)"
proof -
  let ?g = "toUpperCase guess" and ?s = "secretWord st"
  have len: "length ?g = 5"
    using assms(2) by (simp add: toUpperCase_length isValidInput_length)
  have "classify ?g ?s i = Absent" if "i < 5" for i
  proof -
    have gi: "js_index ?g i = Some (?g ! i)" and si: "js_index ?s i = Some (?s ! i)"
      using that len assms(1) by (simp_all add: js_index_def)
    have "?g ! i \<in> set ?g" and "?s ! i \<in> set ?s"
      using that len assms(1) by simp_all
    with assms(3) have "?g ! i \<notin> set ?s" and "?g ! i \<noteq> ?s ! i"
      by auto
    then show ?thesis
      by (simp add: classify_def gi si unmatched_def count_list_0_iff)
  qed
  then show ?thesis
    by (auto simp: list_eq_iff_nth_eq processGuess_length processGuess_nth)
qed

theorem no_shared_letters_all_absent_witness:
  "length (secretWord (fetchSecretWord ''crane'' initialState)) = 5 \<and> isValidInput ''moist''
   \<and> set (toUpperCase ''moist'') \<inter> set (secretWord (fetchSecretWord ''crane'' initialState)) = {}
   \<and> fst (processGuess ''moist'' (fetchSecretWord ''crane'' initialState)) = replicate 5 (Some Absent)"
proof -
  have h1: "length (secretWord (fetchSecretWord ''crane'' initialState)) = 5"
    by (simp add: fetchSecretWord_def toUpperCase_def)
  have h2: "isValidInput ''moist''"
    by code_simp
  have h3: "set (toUpperCase ''moist'') \<inter> set (secretWord (fetchSecretWord ''crane'' initialState)) = {}"
    by code_simp
  show ?thesis
    using h1 h2 h3 no_shared_letters_all_absent[OF h1 h2 h3] by blast
qed

text \<open>
  C7. \<open>processGuess\<close> does not fail on an argument that is not five letters: for every
  guess of ASCII code units and every stored secret it returns an array of five
  classifications. It reads the indices 0..4 of the guess only, so a longer guess is scored
  as its first five code units, and a position that a shorter guess lacks is absent, or
  correct when the secret lacks it too.
\<close>

theorem processGuess_no_validation:
  assumes "isAscii guess"
  shows "(\<exists>a b c d e. fst (processGuess guess st) = [Some a, Some b, Some c, Some d, Some e])
   \<and> fst (processGuess guess st) = fst (processGuess (take 5 guess) st)
   \<and> (\<forall>i<5. length guess \<le> i \<longrightarrow>
         fst (processGuess guess st) ! i
           = Some (if length (secretWord st) \<le> i then Correct else Absent))"
proof (intro conjI allI impI)
  show "\<exists>a b c d e. fst (processGuess guess st) = [Some a, Some b, Some c, Some d, Some e]"
    by (rule processGuess_five)
  have "toUpperCase (take 5 guess) = take 5 (toUpperCase guess)"
    by (simp add: toUpperCase_def take_map)
  then show "fst (processGuess guess st) = fst (processGuess (take 5 guess) st)"
    unfolding processGuess_closed_form
    by (simp add: classify_take)
next
  fix i :: nat
  assume i: "i < 5" and short: "length guess \<le> i"
  have g: "js_index (toUpperCase guess) i = None"
    using short by (simp add: js_index_def toUpperCase_length)
  have s: "js_index (secretWord st) i = None \<longleftrightarrow> length (secretWord st) \<le> i"
    by (auto simp: js_index_def)
  have "classify (toUpperCase guess) (secretWord st) i
          = (if length (secretWord st) \<le> i then Correct else Absent)"
    using s by (auto simp: classify_def g unmatched_def)
  then show "fst (processGuess guess st) ! i
               = Some (if length (secretWord st) \<le> i then Correct else Absent)"
    by (simp add: processGuess_nth[OF i])
qed

theorem processGuess_no_validation_witness:
  "isAscii ''ABCDEF''
   \<and> fst (processGuess ''ABCDEF'' (fetchSecretWord ''ABCDE'' initialState))
       = fst (processGuess ''ABCDE'' (fetchSecretWord ''ABCDE'' initialState))
   \<and> isAscii ''AB'' \<and> (2::nat) < 5 \<and> length ''AB'' \<le> 2
   \<and> fst (processGuess ''AB'' (fetchSecretWord ''ABCDE'' initialState)) ! 2 = Some Absent"
proof -
  have a1: "isAscii ''ABCDEF''"
    by code_simp
  have a2: "isAscii ''AB''"
    by code_simp
  have t: "take 5 ''ABCDEF'' = ''ABCDE''"
    by simp
  have h1: "(2::nat) < 5" and h2: "length ''AB'' \<le> 2"
    by simp_all
  have h3: "\<not> length (secretWord (fetchSecretWord ''ABCDE'' initialState)) \<le> 2"
    by (simp add: fetchSecretWord_def toUpperCase_def)
  have "fst (processGuess ''AB'' (fetchSecretWord ''ABCDE'' initialState)) ! 2
          = Some (if length (secretWord (fetchSecretWord ''ABCDE'' initialState)) \<le> 2
                  then Correct else Absent)"
    using h1 h2 processGuess_no_validation[OF a2, of "fetchSecretWord ''ABCDE'' initialState"]
    by blast
  then have r: "fst (processGuess ''AB'' (fetchSecretWord ''ABCDE'' initialState)) ! 2 = Some Absent"
    using h3 by simp
  show ?thesis
    using a1 a2 h1 h2 r
      processGuess_no_validation[OF a1, of "fetchSecretWord ''ABCDE'' initialState"]
    unfolding t by blast
qed

text \<open>
  A guess of six letters and a guess of two letters, both rejected by \<open>isValidInput\<close>,
  are scored all the same: the sixth letter is ignored, and the missing positions of the
  short guess are absent.
\<close>

theorem fail_fast_counterexample:
  "\<not> isValidInput ''ABCDEF''
   \<and> fst (processGuess ''ABCDEF'' (fetchSecretWord ''ABCDE'' initialState))
       = [Some Correct, Some Correct, Some Correct, Some Correct, Some Correct]
   \<and> \<not> isValidInput ''AB''
   \<and> fst (processGuess ''AB'' (fetchSecretWord ''ABCDE'' initialState))
       = [Some Correct, Some Correct, Some Absent, Some Absent, Some Absent]"
  by code_simp

text \<open>
  C8. The scorer is insensitive to the letter case of both inputs. The guess is put in
  upper case by \<open>processGuess\<close> and the secret by \<open>fetchSecretWord\<close>, which is the only
  place where the script stores a word. So for a guess and a fetched word of ASCII code
  units the result equals the result for both in upper case, and two guesses, or two
  fetched words, that differ in letter case only are scored alike.
\<close>

theorem case_insensitive:
  assumes "isAscii guess" and "isAscii word"
  shows "processGuess guess (fetchSecretWord word st)
           = processGuess (toUpperCase guess) (fetchSecretWord (toUpperCase word) st)
   \<and> (isAscii guess' \<and> toUpperCase guess' = toUpperCase guess
        \<and> isAscii word' \<and> toUpperCase word' = toUpperCase word \<longrightarrow>
          fst (processGuess guess' (fetchSecretWord word' st))
            = fst (processGuess guess (fetchSecretWord word st)))"
  by (simp add: processGuess_def fetchSecretWord_def toUpperCase_idem)

theorem case_insensitive_witness:
  "isAscii ''crane'' \<and> isAscii ''Trace''
   \<and> isAscii ''CRANE'' \<and> toUpperCase ''CRANE'' = toUpperCase ''crane''
   \<and> isAscii ''tRaCe'' \<and> toUpperCase ''tRaCe'' = toUpperCase ''Trace''
   \<and> fst (processGuess ''CRANE'' (fetchSecretWord ''tRaCe'' initialState))
       = fst (processGuess ''crane'' (fetchSecretWord ''Trace'' initialState))
   \<and> processGuess ''crane'' (fetchSecretWord ''Trace'' initialState)
       = processGuess (toUpperCase ''crane'') (fetchSecretWord (toUpperCase ''Trace'') initialState)"
proof -
  have a1: "isAscii ''crane''" and a2: "isAscii ''Trace''"
    and a3: "isAscii ''CRANE''" and a4: "isAscii ''tRaCe''"
    by code_simp+
  have u1: "toUpperCase ''CRANE'' = toUpperCase ''crane''"
    by code_simp
  have u2: "toUpperCase ''tRaCe'' = toUpperCase ''Trace''"
    by code_simp
  show ?thesis
    using a1 a2 a3 a4 u1 u2
      case_insensitive[OF a1 a2, of initialState "''CRANE''" "''tRaCe''"]
    by blast
qed

text \<open>
  C9. \<open>processGuess\<close> is deterministic and idempotent: two calls with the same guess in
  states with the same secret word return the same array, whatever the other fields hold;
  a call leaves the game state, the secret word included, as it was; and a second call
  after the first returns what the first returned.
\<close>

theorem processGuess_deterministic:
  assumes "secretWord st1 = secretWord st2"
  shows "fst (processGuess guess st1) = fst (processGuess guess st2)
         \<and> snd (processGuess guess st1) = st1
         \<and> processGuess guess (snd (processGuess guess st1)) = processGuess guess st1"
  using assms by (simp add: processGuess_def Let_def)

theorem processGuess_deterministic_witness:
  "secretWord (fetchSecretWord ''crane'' initialState)
     = secretWord ((fetchSecretWord ''crane'' initialState)\<lparr>currentRow := 3\<rparr>)
   \<and> fst (processGuess ''trace'' (fetchSecretWord ''crane'' initialState))
       = fst (processGuess ''trace'' ((fetchSecretWord ''crane'' initialState)\<lparr>currentRow := 3\<rparr>))
   \<and> snd (processGuess ''trace'' (fetchSecretWord ''crane'' initialState))
       = fetchSecretWord ''crane'' initialState"
proof -
  have h: "secretWord (fetchSecretWord ''crane'' initialState)
     = secretWord ((fetchSecretWord ''crane'' initialState)\<lparr>currentRow := 3\<rparr>)"
    by simp
  show ?thesis
    using h processGuess_deterministic[OF h, of "''trace''"] by blast
qed

text \<open>
  C10. For a guess and a secret of five code units each, both in upper case,
  \<open>processGuess\<close> returns an array of exactly five elements, each a classification and
  none a hole. When the letter at position \<open>i\<close> of the guess does not occur in the secret,
  the counter read at step \<open>i\<close> of the second loop is \<open>undefined\<close>, the comparison
  \<open>undefined > 0\<close> is false, and the position is absent. (Every function of the model is
  total and the loops are folds over five indices, so the call returns.)
\<close>

theorem processGuess_returns_five:
  assumes "length guess = 5" and "toUpperCase guess = guess"
    and "length (secretWord st) = 5" and "toUpperCase (secretWord st) = secretWord st"
  shows "(\<exists>a b c d e. fst (processGuess guess st) = [Some a, Some b, Some c, Some d, Some e])
     \<and> (\<forall>i<5. guess ! i \<notin> set (secretWord st) \<longrightarrow>
           snd (fold (second_pass_step (toUpperCase guess)) [0..<i]
                  (after_first_pass (toUpperCase guess) (secretWord st))) (Some (guess ! i)) = None
           \<and> \<not> js_gt_zero None
           \<and> fst (processGuess guess st) ! i = Some Absent)"
proof (intro conjI allI impI)
  show "\<exists>a b c d e. fst (processGuess guess st) = [Some a, Some b, Some c, Some d, Some e]"
    by (rule processGuess_five)
next
  fix i :: nat
  assume i: "i < 5" and notin: "guess ! i \<notin> set (secretWord st)"
  let ?s = "secretWord st"
  have gi: "js_index guess i = Some (guess ! i)" and si: "js_index ?s i = Some (?s ! i)"
    using i assms(1,3) by (simp_all add: js_index_def)
  have "?s ! i \<in> set ?s"
    using i assms(3) by simp
  with notin have ne: "guess ! i \<noteq> ?s ! i"
    by auto
  show "snd (fold (second_pass_step (toUpperCase guess)) [0..<i]
                  (after_first_pass (toUpperCase guess) ?s)) (Some (guess ! i)) = None"
    using i notin by (simp add: second_pass_count)
  show "\<not> js_gt_zero None"
    by simp
  have "classify guess ?s i = Absent"
    using notin ne by (simp add: classify_def gi si unmatched_def count_list_0_iff)
  then show "fst (processGuess guess st) ! i = Some Absent"
    using i by (simp add: processGuess_nth assms(2))
qed

theorem processGuess_returns_five_witness:
  "length ''TRACK'' = 5 \<and> toUpperCase ''TRACK'' = ''TRACK''
   \<and> length (secretWord (fetchSecretWord ''CRANE'' initialState)) = 5
   \<and> toUpperCase (secretWord (fetchSecretWord ''CRANE'' initialState))
       = secretWord (fetchSecretWord ''CRANE'' initialState)
   \<and> ''TRACK'' ! 0 \<notin> set (secretWord (fetchSecretWord ''CRANE'' initialState))
   \<and> fst (processGuess ''TRACK'' (fetchSecretWord ''CRANE'' initialState)) ! 0 = Some Absent"
proof -
  have h1: "length ''TRACK'' = 5"
    by simp
  have h2: "toUpperCase ''TRACK'' = ''TRACK''"
    by code_simp
  have h3: "length (secretWord (fetchSecretWord ''CRANE'' initialState)) = 5"
    by (simp add: fetchSecretWord_def toUpperCase_def)
  have h4: "toUpperCase (secretWord (fetchSecretWord ''CRANE'' initialState))
       = secretWord (fetchSecretWord ''CRANE'' initialState)"
    by (simp add: fetchSecretWord_def toUpperCase_idem)
  have h5: "''TRACK'' ! 0 \<notin> set (secretWord (fetchSecretWord ''CRANE'' initialState))"
    by code_simp
  have h6: "(0::nat) < 5"
    by simp
  show ?thesis
    using h1 h2 h3 h4 h5 h6 processGuess_returns_five[OF h1 h2 h3 h4] by blast
qed

end
